theory Spec2Isabelle
  imports Main "HOL-Library.Extended_Nat"
begin

section \<open>Strings\<close>

text \<open>
  A Python \<open>str\<close> is a sequence of Unicode code points and \<open>len\<close> counts code points.
  The words handled by \<open>hw2.py\<close> are Cyrillic and Czech, so a character is modelled by its
  code point and a string by the list of its code points. ASCII literals of the source
  are written through \<open>ustr\<close>; the other characters are given by their code point.
\<close>

type_synonym uchar = nat
type_synonym ustring = "uchar list"

definition ustr :: "string \<Rightarrow> ustring" where
  "ustr s = map of_char s"

section \<open>Distance engine\<close>

text \<open>
  \<^verbatim>\<open>
  def substitution_cost(ruchar, cschar):
      if (ruchar, cschar) in [('i','y'), ('g','h'), ('y', 'i')]:
          return 0
      return 1
  \<close>
\<close>

definition substitution_cost :: "uchar \<Rightarrow> uchar \<Rightarrow> nat" where
  "substitution_cost ruchar cschar =
     (if (ruchar, cschar) \<in> set [(of_char CHR ''i'', of_char CHR ''y''),
                                  (of_char CHR ''g'', of_char CHR ''h''),
                                  (of_char CHR ''y'', of_char CHR ''i'')]
      then 0 else 1)"

text \<open>
  \<^verbatim>\<open>
  @lru_cache(maxsize=8192)
  def levenshtein(source, target):
      if not source or not target:
          return len(source) + len(target)
      if source[0] == target[0]:
          return levenshtein(source[1:], target[1:])
      insert = levenshtein(source, target[1:]) + 1
      delete = levenshtein(source[1:], target) + 1
      substitute = levenshtein(source[1:], target[1:]) + substitution_cost(source[0], target[0])
      return min(insert, delete, substitute)
  \<close>
  This is the decorated function's body, as a function of its two arguments. The cache
  that the decorator keeps between calls is modelled separately, further down
  (\<open>levenshtein_cached\<close>). The interpreter's recursion limit (the body recurses to a
  depth of at most \<open>len(source) + len(target)\<close>) is outside the model.
\<close>

fun levenshtein :: "ustring \<Rightarrow> ustring \<Rightarrow> nat" where
  "levenshtein [] target = length ([] :: ustring) + length target"
| "levenshtein (s # source) [] = length (s # source) + length ([] :: ustring)"
| "levenshtein (s # source) (t # target) =
     (if s = t then levenshtein source target
      else
        let ins = levenshtein (s # source) target + 1;
            del = levenshtein source (t # target) + 1;
            substitute = levenshtein source target + substitution_cost s t
        in min ins (min del substitute))"

section \<open>Normalizer\<close>

text \<open>
  \<open>transliteration\<close> looks every character up in the dictionary literal \<open>tr\<close>, under the
  key \<open>char.lower()\<close>, and keeps the character itself when the key is absent:
  \<^verbatim>\<open>return ''.join(tr.get(char.lower(), char) for char in russian)\<close>
  \<open>tr_items\<close> lists the items of the literal in source order (the keys are one-character
  strings, written here by code point: the Cyrillic small letters U+0430..U+044F,
  U+0451 and U+0456). The key U+044C occurs twice in the literal; in a Python
  dictionary literal the later item wins, which \<open>dict_get\<close> implements by searching the
  items from the end.
\<close>

definition tr_items :: "(ustring \<times> ustring) list" where
  "tr_items =
    [([0x430], ustr ''a''),
     ([0x431], ustr ''b''),
     ([0x432], ustr ''v''),
     ([0x433], ustr ''g''),
     ([0x434], ustr ''d''),
     ([0x435], ustr ''e''),
     ([0x451], [0xEB]),
     ([0x436], [0x17E]),
     ([0x437], ustr ''z''),
     ([0x438], ustr ''i''),
     ([0x456], ustr ''i''),
     ([0x439], ustr ''j''),
     ([0x43A], ustr ''k''),
     ([0x43B], ustr ''l''),
     ([0x43C], ustr ''m''),
     ([0x43D], ustr ''n''),
     ([0x43E], ustr ''o''),
     ([0x43F], ustr ''p''),
     ([0x440], ustr ''r''),
     ([0x441], ustr ''s''),
     ([0x442], ustr ''t''),
     ([0x443], ustr ''u''),
     ([0x444], ustr ''f''),
     ([0x445], ustr ''x''),
     ([0x446], ustr ''c''),
     ([0x447], [0x10D]),
     ([0x448], [0x161]),
     ([0x449], [0x161, 0x10D]),
     ([0x44A], [0x2BA]),
     ([0x44C], [0x27]),
     ([0x44B], ustr ''y''),
     ([0x44C], [0x2B9]),
     ([0x44D], [0xE8]),
     ([0x44E], ustr ''ju''),
     ([0x44F], ustr ''ja'')]"

definition dict_get :: "('k \<times> 'v) list \<Rightarrow> 'k \<Rightarrow> 'v \<Rightarrow> 'v" where
  "dict_get items k dflt = (case map_of (rev items) k of Some v \<Rightarrow> v | None \<Rightarrow> dflt)"

text \<open>
  \<open>str.lower\<close> belongs to the Python runtime, not to the repository: \<open>transliteration\<close>
  takes it as the parameter \<open>lower\<close>, from a character to the string that \<open>char.lower()\<close>
  returns. Every general statement below holds for every \<open>lower\<close>. \<open>py_lower\<close> is
  \<open>str.lower\<close> on Basic Latin and on the Cyrillic capitals U+0400..U+042F; it is used for
  the concrete runs only, on words inside these ranges.
\<close>

definition py_lower :: "uchar \<Rightarrow> ustring" where
  "py_lower c =
     (if 0x41 \<le> c \<and> c \<le> 0x5A then [c + 32]
      else if 0x410 \<le> c \<and> c \<le> 0x42F then [c + 32]
      else if 0x400 \<le> c \<and> c \<le> 0x40F then [c + 80]
      else [c])"

definition transliteration :: "(uchar \<Rightarrow> ustring) \<Rightarrow> ustring \<Rightarrow> ustring" where
  "transliteration lower russian =
     concat (map (\<lambda>char. dict_get tr_items (lower char) [char]) russian)"

text \<open>
  \<open>word.replace(old, new)\<close>: the occurrences of \<open>old\<close> are found from the left, without
  overlap, and each is replaced by \<open>new\<close>. For an empty \<open>old\<close> Python puts \<open>new\<close> before
  every character and at the end.
\<close>

function replace :: "ustring \<Rightarrow> ustring \<Rightarrow> ustring \<Rightarrow> ustring" where
  "replace old new [] = (if old = [] then new else [])"
| "replace old new (c # cs) =
     (if old = [] then new @ c # replace old new cs
      else if take (length old) (c # cs) = old
        then new @ replace old new (drop (length old) (c # cs))
      else c # replace old new cs)"
  by pat_completeness auto
termination
  by (relation "measure (\<lambda>(old, new, word). length word)") auto

text \<open>
  \<^verbatim>\<open>
  def czech_processing(word):
      return (word
              .replace('\u00e1', 'a').replace('\u00ed', 'i').replace('\u00f3', 'o')
              .replace('\u00fa', 'u').replace('\u00e9', 'e').replace('\u00fd', 'y')
              .replace('\u016f', "u")
              .replace('ch', 'x')
              .replace('\u0148', "n'").replace('\u010d', "c'").replace('\u010f', "d'")
              .replace('\u011b', "e").replace('\u0159', "r'").replace('\u0165', "t'"))
  \<close>
  (the source writes the characters themselves, here escaped; each is a single
  precomposed code point). \<open>czech_rules\<close> is the chain in source order, applied from the left.
\<close>

definition czech_rules :: "(ustring \<times> ustring) list" where
  "czech_rules =
    [([0xE1], ustr ''a''),
     ([0xED], ustr ''i''),
     ([0xF3], ustr ''o''),
     ([0xFA], ustr ''u''),
     ([0xE9], ustr ''e''),
     ([0xFD], ustr ''y''),
     ([0x16F], ustr ''u''),
     (ustr ''ch'', ustr ''x''),
     ([0x148], ustr ''n'' @ [0x27]),
     ([0x10D], ustr ''c'' @ [0x27]),
     ([0x10F], ustr ''d'' @ [0x27]),
     ([0x11B], ustr ''e''),
     ([0x159], ustr ''r'' @ [0x27]),
     ([0x165], ustr ''t'' @ [0x27])]"

definition czech_processing :: "ustring \<Rightarrow> ustring" where
  "czech_processing word = foldl (\<lambda>w (old, new). replace old new w) word czech_rules"

text \<open>
  Python's \<open>sub in s\<close> for strings: \<open>sub\<close> occurs in \<open>s\<close> as a contiguous substring.
\<close>

fun occurs :: "ustring \<Rightarrow> ustring \<Rightarrow> bool" where
  "occurs sub [] = (sub = [])"
| "occurs sub (c # cs) = (take (length sub) (c # cs) = sub \<or> occurs sub cs)"

section \<open>Frequency tables\<close>

text \<open>
  A \<open>collections.Counter\<close> is a dictionary from words to integer counts that iterates
  in insertion order: it is modelled by the list of its items in that order (the keys
  are distinct). \<open>Counter.most_common()\<close> is
  \<open>sorted(self.items(), key=itemgetter(1), reverse=True)\<close>: a stable sort by descending
  count, so words with equal counts keep their insertion order. \<open>most_common(n)\<close> is
  \<open>heapq.nlargest(n, self.items(), key=itemgetter(1))\<close>, documented as equivalent to
  the first \<open>n\<close> elements of that sorted list (none when \<open>n \<le> 0\<close>).
\<close>

type_synonym counter = "(ustring \<times> int) list"

definition most_common :: "counter \<Rightarrow> (ustring \<times> int) list" where
  "most_common c = sort_key (\<lambda>item. - snd item) c"

definition most_common_n :: "int \<Rightarrow> counter \<Rightarrow> (ustring \<times> int) list" where
  "most_common_n n c = take (nat n) (most_common c)"

section \<open>Matcher\<close>

text \<open>
  The score \<open>best\<close> starts as \<open>float("Inf")\<close> and then holds distances, which are natural
  numbers: it is an \<open>enat\<close>, with \<open>\<infinity>\<close> for the float infinity (Python compares an int
  with the float infinity as expected: every int is below it).

  The inner loop of \<open>translate_words\<close>, with the loop state \<open>(candidate, best)\<close>:
  \<^verbatim>\<open>
  for c_word in sorted_czech:
      if abs(len(c_word)-len(r_trans)) > best:
          continue
      dist = levenshtein(r_trans, czech_processing(c_word))
      if dist < best:
          candidate = c_word
          best = dist
      if dist == 0:
          break
  \<close>
\<close>

fun scan_candidates :: "ustring \<Rightarrow> ustring list \<Rightarrow> ustring \<times> enat \<Rightarrow> ustring \<times> enat" where
  "scan_candidates r_trans [] (candidate, best) = (candidate, best)"
| "scan_candidates r_trans (c_word # rest) (candidate, best) =
     (if enat (nat \<bar>int (length c_word) - int (length r_trans)\<bar>) > best
      then scan_candidates r_trans rest (candidate, best)
      else
        let dist = levenshtein r_trans (czech_processing c_word);
            state = (if enat dist < best then (c_word, enat dist) else (candidate, best))
        in if dist = 0 then state else scan_candidates r_trans rest state)"

text \<open>
  The body of the outer loop for one source word, up to its \<open>yield\<close>:
  \<^verbatim>\<open>
  r_trans = transliteration(r_word)
  best = float("Inf")
  candidate = ''
  for c_word in sorted_czech: ...
  if best >= max(len(r_word),len(candidate)):
      yield r_word, '', float("Inf")
  else:
      yield r_word, candidate, best
  \<close>
\<close>

definition translate_word ::
  "(uchar \<Rightarrow> ustring) \<Rightarrow> ustring list \<Rightarrow> ustring \<Rightarrow> ustring \<times> ustring \<times> enat" where
  "translate_word lower sorted_czech r_word =
     (let r_trans = transliteration lower r_word;
          (candidate, best) = scan_candidates r_trans sorted_czech ([], \<infinity>)
      in if best \<ge> enat (max (length r_word) (length candidate))
         then (r_word, [], \<infinity>)
         else (r_word, candidate, best))"

text \<open>
  The outer loop \<open>for r_word, _ in russian.most_common(n)\<close>; the generator's output is
  the list of the triples it yields, in order. The progress counter \<open>i\<close> and the
  messages on \<open>sys.stderr\<close> do not reach the output and are left out.
\<close>

fun translate_loop ::
  "(uchar \<Rightarrow> ustring) \<Rightarrow> ustring list \<Rightarrow> (ustring \<times> int) list
     \<Rightarrow> (ustring \<times> ustring \<times> enat) list" where
  "translate_loop lower sorted_czech [] = []"
| "translate_loop lower sorted_czech ((r_word, count) # rest) =
     translate_word lower sorted_czech r_word # translate_loop lower sorted_czech rest"

definition translate_words ::
  "(uchar \<Rightarrow> ustring) \<Rightarrow> counter \<Rightarrow> counter \<Rightarrow> int \<Rightarrow> (ustring \<times> ustring \<times> enat) list" where
  "translate_words lower russian czech n =
     (let sorted_czech = map fst (most_common czech)
      in translate_loop lower sorted_czech (most_common_n n russian))"

section \<open>The distance cache\<close>

text \<open>
  \<open>@lru_cache(maxsize=8192)\<close> keeps, across all calls of \<open>levenshtein\<close> in the process,
  a table from the argument pair to the result, ordered by recency of use. A call
  whose key is in the table returns the stored result and makes the entry the most
  recent one; otherwise the body runs (its recursive calls go through the cache as
  well), and the result is stored as the most recent entry, in place of the least
  recent one when the table already holds \<open>maxsize\<close> entries (nothing is stored if the
  key has appeared in the table meanwhile). The table is a list of entries, the most
  recent first.
\<close>

type_synonym lru = "((ustring \<times> ustring) \<times> nat) list"

definition maxsize :: nat where
  "maxsize = 8192"

definition lru_hit :: "ustring \<times> ustring \<Rightarrow> nat \<Rightarrow> lru \<Rightarrow> lru" where
  "lru_hit key v cache = (key, v) # filter (\<lambda>entry. fst entry \<noteq> key) cache"

definition lru_store :: "ustring \<times> ustring \<Rightarrow> nat \<Rightarrow> lru \<Rightarrow> lru" where
  "lru_store key v cache =
     (if map_of cache key \<noteq> None then cache
      else if length cache \<ge> maxsize then (key, v) # butlast cache
      else (key, v) # cache)"

function levenshtein_cached :: "lru \<Rightarrow> ustring \<Rightarrow> ustring \<Rightarrow> nat \<times> lru" where
  "levenshtein_cached cache source target =
     (case map_of cache (source, target) of
        Some v \<Rightarrow> (v, lru_hit (source, target) v cache)
      | None \<Rightarrow>
          let (result, cache') =
            (case (source, target) of
               ([], _) \<Rightarrow> (length source + length target, cache)
             | (_ # _, []) \<Rightarrow> (length source + length target, cache)
             | (s # source', t # target') \<Rightarrow>
                 if s = t then levenshtein_cached cache source' target'
                 else
                   let (ins, cache1) = levenshtein_cached cache source target';
                       (del, cache2) = levenshtein_cached cache1 source' target;
                       (substitute, cache3) = levenshtein_cached cache2 source' target'
                   in (min (ins + 1) (min (del + 1) (substitute + substitution_cost s t)),
                       cache3))
          in (result, lru_store (source, target) result cache'))"
  by pat_completeness auto
termination
  by (relation "measure (\<lambda>(cache, source, target). length source + length target)") auto

declare levenshtein_cached.simps [simp del]

text \<open>
  \<open>translate_words\<close> as it runs in the process: the same loops as above, with the cache
  handed from each call of \<open>levenshtein\<close> to the next, and returned at the end for the
  next run.
\<close>

fun scan_candidates_cached ::
  "lru \<Rightarrow> ustring \<Rightarrow> ustring list \<Rightarrow> ustring \<times> enat \<Rightarrow> (ustring \<times> enat) \<times> lru" where
  "scan_candidates_cached cache r_trans [] (candidate, best) = ((candidate, best), cache)"
| "scan_candidates_cached cache r_trans (c_word # rest) (candidate, best) =
     (if enat (nat \<bar>int (length c_word) - int (length r_trans)\<bar>) > best
      then scan_candidates_cached cache r_trans rest (candidate, best)
      else
        let (dist, cache') = levenshtein_cached cache r_trans (czech_processing c_word);
            state = (if enat dist < best then (c_word, enat dist) else (candidate, best))
        in if dist = 0 then (state, cache')
           else scan_candidates_cached cache' r_trans rest state)"

definition translate_word_cached ::
  "(uchar \<Rightarrow> ustring) \<Rightarrow> lru \<Rightarrow> ustring list \<Rightarrow> ustring
     \<Rightarrow> (ustring \<times> ustring \<times> enat) \<times> lru" where
  "translate_word_cached lower cache sorted_czech r_word =
     (let r_trans = transliteration lower r_word;
          ((candidate, best), cache') =
             scan_candidates_cached cache r_trans sorted_czech ([], \<infinity>)
      in if best \<ge> enat (max (length r_word) (length candidate))
         then ((r_word, [], \<infinity>), cache')
         else ((r_word, candidate, best), cache'))"

fun translate_loop_cached ::
  "(uchar \<Rightarrow> ustring) \<Rightarrow> lru \<Rightarrow> ustring list \<Rightarrow> (ustring \<times> int) list
     \<Rightarrow> (ustring \<times> ustring \<times> enat) list \<times> lru" where
  "translate_loop_cached lower cache sorted_czech [] = ([], cache)"
| "translate_loop_cached lower cache sorted_czech ((r_word, count) # rest) =
     (let (triple, cache') = translate_word_cached lower cache sorted_czech r_word;
          (triples, cache'') = translate_loop_cached lower cache' sorted_czech rest
      in (triple # triples, cache''))"

definition translate_words_cached ::
  "(uchar \<Rightarrow> ustring) \<Rightarrow> lru \<Rightarrow> counter \<Rightarrow> counter \<Rightarrow> int
     \<Rightarrow> (ustring \<times> ustring \<times> enat) list \<times> lru" where
  "translate_words_cached lower cache russian czech n =
     (let sorted_czech = map fst (most_common czech)
      in translate_loop_cached lower cache sorted_czech (most_common_n n russian))"

text \<open>
  A cache is sound when every entry holds the distance of its key. The empty cache of
  a fresh process is sound, and every call keeps the cache sound
  (\<open>levenshtein_cached_sound\<close> below), so these are the caches a run can start from.
\<close>

definition cache_sound :: "lru \<Rightarrow> bool" where
  "cache_sound cache = (\<forall>((source, target), v) \<in> set cache. v = levenshtein source target)"

section \<open>Properties of the distance engine\<close>

text \<open>
  C4: the substitution cost is looked up for the ordered pair (source character, target
  character) and is not symmetric: \<open>('g','h')\<close> is free and \<open>('h','g')\<close> costs 1, so
  \<open>levenshtein "g" "h" = 0\<close> while \<open>levenshtein "h" "g" = 1\<close>; hence there are strings
  whose distance changes when the arguments are swapped.
\<close>

theorem levenshtein_not_symmetric:
  "substitution_cost (of_char CHR ''g'') (of_char CHR ''h'') = 0
   \<and> substitution_cost (of_char CHR ''h'') (of_char CHR ''g'') = 1
   \<and> levenshtein (ustr ''g'') (ustr ''h'') = 0
   \<and> levenshtein (ustr ''h'') (ustr ''g'') = 1
   \<and> (\<exists>a b. levenshtein a b \<noteq> levenshtein b a)"
proof -
  have gh: "levenshtein (ustr ''g'') (ustr ''h'') = 0"
    by (simp add: ustr_def substitution_cost_def)
  have hg: "levenshtein (ustr ''h'') (ustr ''g'') = 1"
    by (simp add: ustr_def substitution_cost_def)
  from gh hg have "levenshtein (ustr ''g'') (ustr ''h'') \<noteq> levenshtein (ustr ''h'') (ustr ''g'')"
    by simp
  then have "\<exists>a b. levenshtein a b \<noteq> levenshtein b a"
    by blast
  with gh hg show ?thesis
    by (simp add: substitution_cost_def)
qed

text \<open>
  C5: for all strings \<open>a\<close> and \<open>b\<close>, \<open>levenshtein a b\<close> is at least the absolute
  difference of their lengths, although some substitutions are free. The bound is on
  the two strings whose distance is taken; what the matcher compares with it is
  treated under C1.
\<close>

theorem levenshtein_ge_length_diff:
  "int (levenshtein a b) \<ge> \<bar>int (length a) - int (length b)\<bar>"
proof (induction a b rule: levenshtein.induct)
  case (1 target)
  show ?case by simp
next
  case (2 s source)
  show ?case by simp
next
  case (3 s source t target)
  show ?case
  proof (cases "s = t")
    case True
    with 3 show ?thesis by simp
  next
    case False
    have ih1: "\<bar>int (length (s # source)) - int (length target)\<bar>
                 \<le> int (levenshtein (s # source) target)"
      using 3(2)[OF False] .
    have ih2: "\<bar>int (length source) - int (length (t # target))\<bar>
                 \<le> int (levenshtein source (t # target))"
      using 3(3)[OF False refl] .
    have ih3: "\<bar>int (length source) - int (length target)\<bar>
                 \<le> int (levenshtein source target)"
      using 3(4)[OF False refl refl] .
    from False ih1 ih2 ih3 show ?thesis
      by (auto simp add: Let_def min_def)
  qed
qed

text \<open>
  C6: for all strings \<open>a\<close> and \<open>b\<close>, \<open>levenshtein a b\<close> is at most
  \<open>len(a) + len(b)\<close>.
\<close>

theorem levenshtein_le_length_sum:
  "levenshtein a b \<le> length a + length b"
proof (induction a b rule: levenshtein.induct)
  case (3 s source t target)
  show ?case
  proof (cases "s = t")
    case True
    with 3 show ?thesis by simp
  next
    case False
    have "levenshtein (s # source) target \<le> length (s # source) + length target"
      using 3(2)[OF False] .
    then have "levenshtein (s # source) target + 1 \<le> length (s # source) + length (t # target)"
      by simp
    with False show ?thesis by (simp add: Let_def min_def)
  qed
qed simp_all

text \<open>
  C7: when at least one of the two strings is empty, \<open>levenshtein a b\<close> is the length
  of the other one.
\<close>

theorem levenshtein_empty:
  "a = [] \<or> b = [] \<Longrightarrow>
     levenshtein a b = (if a = [] then length b else length a)"
  by (cases a; cases b) simp_all

theorem levenshtein_empty_witness:
  "levenshtein [] (ustr ''abc'') = 3 \<and> levenshtein (ustr ''ab'') [] = 2"
  using levenshtein_empty [of "[]" "ustr ''abc''"] levenshtein_empty [of "ustr ''ab''" "[]"]
  by (simp add: ustr_def)

text \<open>
  C8: for every string \<open>w\<close>, \<open>levenshtein w w = 0\<close>.
\<close>

theorem levenshtein_self: "levenshtein w w = 0"
  by (induction w) simp_all

section \<open>Properties of the normalizer\<close>

lemma set_replace_subset: "set (replace old new word) \<subseteq> set word \<union> set new"
proof (induction old new word rule: replace.induct)
  case (1 old new)
  show ?case by auto
next
  case (2 old new c cs)
  show ?case
  proof (cases "old = []")
    case True
    with 2(1) show ?thesis by auto
  next
    case nonempty: False
    show ?thesis
    proof (cases "take (length old) (c # cs) = old")
      case True
      have "set (drop (length old) (c # cs)) \<subseteq> set (c # cs)"
        by (rule set_drop_subset)
      with 2(2) [OF nonempty True] nonempty True show ?thesis
        by (simp del: drop_Suc_Cons) blast
    next
      case False
      with 2(3) [OF nonempty False] nonempty show ?thesis by auto
    qed
  qed
qed

lemma replace_keeps_absent:
  "b \<notin> set word \<Longrightarrow> b \<notin> set new \<Longrightarrow> b \<notin> set (replace old new word)"
  using set_replace_subset [of old new word] by blast

lemma replace_char: "replace [c] new word = concat (map (\<lambda>x. if x = c then new else [x]) word)"
  by (induction word) simp_all

lemma replace_char_removes: "c \<notin> set new \<Longrightarrow> c \<notin> set (replace [c] new word)"
  by (auto simp add: replace_char)

text \<open>Occurrences of a two-character pattern.\<close>

lemma occurs_pair_append:
  "occurs [a, b] (xs @ ys) \<longleftrightarrow>
     occurs [a, b] xs \<or> occurs [a, b] ys \<or> (xs \<noteq> [] \<and> ys \<noteq> [] \<and> last xs = a \<and> hd ys = b)"
proof (induction xs)
  case Nil
  show ?case by simp
next
  case (Cons x xs)
  show ?case
  proof (cases xs)
    case Nil
    then show ?thesis by (cases ys) auto
  next
    case (Cons x' xs')
    with Cons.IH show ?thesis by auto
  qed
qed

lemma replace_ch_starts_h:
  "replace [a, b] [x] word = h # rest \<Longrightarrow> x \<noteq> h \<Longrightarrow> \<exists>word'. word = h # word'"
  by (cases word) (auto split: if_splits)

lemma replace_pair_no_occurrence:
  "a \<noteq> b \<Longrightarrow> x \<noteq> a \<Longrightarrow> x \<noteq> b \<Longrightarrow> \<not> occurs [a, b] (replace [a, b] [x] word)"
proof (induction "[a, b]" "[x]" word rule: replace.induct)
  case 1
  show ?case by simp
next
  case (2 c cs)
  show ?case
  proof (cases "take (length [a, b]) (c # cs) = [a, b]")
    case True
    have "\<not> occurs [a, b] (replace [a, b] [x] (drop (length [a, b]) (c # cs)))"
      using 2(2) [OF _ True] 2(4-6) by simp
    moreover have "replace [a, b] [x] (c # cs) = x # replace [a, b] [x] (drop (length [a, b]) (c # cs))"
      using True by simp
    ultimately show ?thesis
      using \<open>x \<noteq> a\<close> by (cases "replace [a, b] [x] (drop (length [a, b]) (c # cs))") auto
  next
    case False
    have ih: "\<not> occurs [a, b] (replace [a, b] [x] cs)"
      using 2(3) [OF _ False] 2(4-6) by simp
    have eq: "replace [a, b] [x] (c # cs) = c # replace [a, b] [x] cs"
      using False by auto
    show ?thesis
    proof (cases "replace [a, b] [x] cs")
      case Nil
      with eq show ?thesis by simp
    next
      case (Cons y ys)
      have "\<not> (c = a \<and> y = b)"
      proof
        assume cy: "c = a \<and> y = b"
        with Cons \<open>x \<noteq> b\<close> replace_ch_starts_h [of a b x cs b ys]
        obtain cs' where "cs = b # cs'" by auto
        with cy False show False by simp
      qed
      with ih eq Cons show ?thesis by auto
    qed
  qed
qed

lemma replace_char_keeps_no_pair:
  assumes none: "\<not> occurs [a, b] word"
    and new: "new \<noteq> []" "\<not> occurs [a, b] new" "last new \<noteq> a" "hd new \<noteq> b"
    and c: "c \<noteq> a" "c \<noteq> b"
  shows "\<not> occurs [a, b] (replace [c] new word)"
  using none
proof (induction word)
  case Nil
  show ?case by simp
next
  case (Cons y word)
  let ?f = "\<lambda>x. if x = c then new else [x]"
  have tail: "\<not> occurs [a, b] (replace [c] new word)"
    using Cons by auto
  have head: "\<not> occurs [a, b] (?f y)"
    using new by simp
  have eq: "replace [c] new (y # word) = ?f y @ replace [c] new word"
    by (simp add: replace_char)
  have "\<not> (replace [c] new word \<noteq> [] \<and> last (?f y) = a \<and> hd (replace [c] new word) = b)"
  proof
    assume bad: "replace [c] new word \<noteq> [] \<and> last (?f y) = a \<and> hd (replace [c] new word) = b"
    with new have y: "y = a" "y \<noteq> c"
      by (auto split: if_splits)
    from bad obtain z word' where word: "word = z # word'"
      by (cases word) auto
    with bad new have "hd (?f z) = b"
      by (auto simp add: replace_char split: if_splits)
    with new have "z = b"
      by (auto split: if_splits)
    with y word Cons.prems show False by simp
  qed
  with head tail eq new show ?case
    by (simp add: occurs_pair_append)
qed

lemma czech_processing_chain:
  "czech_processing word =
     replace [0x165] [116, 39] (replace [0x159] [114, 39] (replace [0x11B] [101]
       (replace [0x10F] [100, 39] (replace [0x10D] [99, 39] (replace [0x148] [110, 39]
         (replace [99, 104] [120]
           (replace [0x16F] [117] (replace [0xFD] [121] (replace [0xE9] [101]
             (replace [0xFA] [117] (replace [0xF3] [111] (replace [0xED] [105]
               (replace [0xE1] [97] word)))))))))))))"
  by (simp add: czech_processing_def czech_rules_def ustr_def)

lemma czech_processing_no_ch: "\<not> occurs [99, 104] (czech_processing word)"
  unfolding czech_processing_chain
  by (intro replace_char_keeps_no_pair replace_pair_no_occurrence) simp_all

lemma czech_processing_no_replaced_char:
  "b \<in> {0xE1, 0xED, 0xF3, 0xFA, 0xE9, 0xFD, 0x16F, 0x148, 0x10D, 0x10F, 0x11B, 0x159, 0x165}
     \<Longrightarrow> b \<notin> set (czech_processing word)"
  unfolding czech_processing_chain
  by (elim insertE emptyE; hypsubst; intro replace_char_removes replace_keeps_absent; simp)

text \<open>
  C10: for every input string, the output of \<open>czech_processing\<close> contains no occurrence
  of the substring \<open>ch\<close> and none of the thirteen replaced characters (U+00E1, U+00ED,
  U+00F3, U+00FA, U+00E9, U+00FD, U+016F, U+0148, U+010D, U+010F, U+011B, U+0159,
  U+0165): each replacement rewrites all occurrences of its pattern and no later one
  brings an earlier pattern back.
\<close>

theorem czech_processing_no_patterns:
  "\<not> occurs (ustr ''ch'') (czech_processing word)
   \<and> set (czech_processing word)
       \<inter> {0xE1, 0xED, 0xF3, 0xFA, 0xE9, 0xFD, 0x16F, 0x148, 0x10D, 0x10F, 0x11B, 0x159, 0x165}
     = {}"
proof -
  have "\<not> occurs (ustr ''ch'') (czech_processing word)"
    using czech_processing_no_ch [of word] by (simp add: ustr_def)
  moreover have "set (czech_processing word)
       \<inter> {0xE1, 0xED, 0xF3, 0xFA, 0xE9, 0xFD, 0x16F, 0x148, 0x10D, 0x10F, 0x11B, 0x159, 0x165}
     = {}"
    using czech_processing_no_replaced_char [of _ word] by blast
  ultimately show ?thesis by simp
qed

theorem czech_processing_no_patterns_witness:
  "czech_processing (ustr ''cch'' @ [0x10D] @ ustr ''h'' @ [0xE1, 0x148, 0x11B, 0x165])
     = ustr ''cxc'' @ [0x27] @ ustr ''han'' @ [0x27] @ ustr ''et'' @ [0x27]
   \<and> \<not> occurs (ustr ''ch'') (ustr ''cxc'' @ [0x27] @ ustr ''han'' @ [0x27] @ ustr ''et'' @ [0x27])"
proof -
  have run: "czech_processing (ustr ''cch'' @ [0x10D] @ ustr ''h'' @ [0xE1, 0x148, 0x11B, 0x165])
     = ustr ''cxc'' @ [0x27] @ ustr ''han'' @ [0x27] @ ustr ''et'' @ [0x27]"
    by (simp add: czech_processing_def czech_rules_def ustr_def)
  from czech_processing_no_patterns
    [of "ustr ''cch'' @ [0x10D] @ ustr ''h'' @ [0xE1, 0x148, 0x11B, 0x165]"] run
  show ?thesis by simp
qed

section \<open>Properties of the matcher\<close>

text \<open>Unfolding rules for running the matcher on concrete tables.\<close>

lemmas run_defs =
  translate_words_def most_common_def most_common_n_def translate_word_def
  transliteration_def dict_get_def tr_items_def py_lower_def ustr_def
  czech_processing_def czech_rules_def substitution_cost_def

subsection \<open>The rejection rule\<close>

lemma length_translate_loop: "length (translate_loop lower sorted_czech rs) = length rs"
  by (induction rs) auto

lemma translate_loop_nth:
  "i < length rs \<Longrightarrow>
     translate_loop lower sorted_czech rs ! i = translate_word lower sorted_czech (fst (rs ! i))"
proof (induction rs arbitrary: i)
  case Nil
  then show ?case by simp
next
  case (Cons r rs)
  obtain r_word count where r: "r = (r_word, count)" by (cases r)
  show ?case
  proof (cases i)
    case 0
    with r show ?thesis by simp
  next
    case (Suc j)
    with Cons.prems have "j < length rs" by simp
    from Cons.IH [OF this] Suc r show ?thesis by simp
  qed
qed

text \<open>
  C2: for every source word \<open>w\<close> that \<open>translate_words\<close> processes (the \<open>i\<close>-th of
  \<open>russian.most_common(n)\<close>), with \<open>(bestCandidate, best)\<close> the state in which the
  candidate scan ends, the \<open>i\<close>-th triple of the output is the sentinel \<open>(w, "", \<infinity>)\<close>
  when \<open>best \<ge> max(len(w), len(bestCandidate))\<close>, lengths taken on the raw words, and
  \<open>(w, bestCandidate, best)\<close> otherwise; the boundary is inclusive, so a word of
  length 3 whose best candidate has length 3 at distance 3 gives the sentinel.
\<close>

theorem translate_words_rejection_rule:
  "i < length (most_common_n n russian) \<Longrightarrow>
   w = fst (most_common_n n russian ! i) \<Longrightarrow>
   scan_candidates (transliteration lower w) (map fst (most_common czech)) ([], \<infinity>)
     = (bestCandidate, best) \<Longrightarrow>
   length (translate_words lower russian czech n) = length (most_common_n n russian)
   \<and> translate_words lower russian czech n ! i =
       (if best \<ge> enat (max (length w) (length bestCandidate))
        then (w, [], \<infinity>) else (w, bestCandidate, best))
   \<and> (length w = 3 \<and> length bestCandidate = 3 \<and> best = 3
        \<longrightarrow> translate_words lower russian czech n ! i = (w, [], \<infinity>))"
proof -
  assume i: "i < length (most_common_n n russian)"
    and w: "w = fst (most_common_n n russian ! i)"
    and scan: "scan_candidates (transliteration lower w) (map fst (most_common czech))
                 ([], \<infinity>) = (bestCandidate, best)"
  have len: "length (translate_words lower russian czech n) = length (most_common_n n russian)"
    by (simp add: translate_words_def length_translate_loop)
  have "translate_words lower russian czech n ! i
          = translate_word lower (map fst (most_common czech)) w"
    using i w by (simp add: translate_words_def translate_loop_nth)
  with scan have out: "translate_words lower russian czech n ! i =
       (if best \<ge> enat (max (length w) (length bestCandidate))
        then (w, [], \<infinity>) else (w, bestCandidate, best))"
    by (simp add: translate_word_def)
  have "translate_words lower russian czech n ! i = (w, [], \<infinity>)"
    if "length w = 3" "length bestCandidate = 3" "best = 3"
    using out that by (simp add: numeral_eq_enat)
  with len out show ?thesis by blast
qed

theorem translate_words_rejection_rule_witness:
  "scan_candidates (transliteration py_lower [0x430, 0x431, 0x432]) [ustr ''xyz''] ([], \<infinity>)
     = (ustr ''xyz'', 3)
   \<and> translate_words py_lower [([0x430, 0x431, 0x432], 1)] [(ustr ''xyz'', 1)] 5000 ! 0
     = ([0x430, 0x431, 0x432], [], \<infinity>)
   \<and> scan_candidates (transliteration py_lower [0x430, 0x431, 0x432]) [ustr ''abx''] ([], \<infinity>)
     = (ustr ''abx'', 1)
   \<and> translate_words py_lower [([0x430, 0x431, 0x432], 1)] [(ustr ''abx'', 1)] 5000 ! 0
     = ([0x430, 0x431, 0x432], ustr ''abx'', 1)"
proof -
  have mc: "most_common_n 5000 [([0x430, 0x431, 0x432], 1)] = [([0x430, 0x431, 0x432], 1)]"
    by (simp add: most_common_n_def most_common_def)
  have far: "scan_candidates (transliteration py_lower [0x430, 0x431, 0x432])
               (map fst (most_common [(ustr ''xyz'', 1)])) ([], \<infinity>) = (ustr ''xyz'', 3)"
    by (simp add: run_defs numeral_eq_enat)
  have near: "scan_candidates (transliteration py_lower [0x430, 0x431, 0x432])
               (map fst (most_common [(ustr ''abx'', 1)])) ([], \<infinity>) = (ustr ''abx'', 1)"
    by (simp add: run_defs one_enat_def)
  have i: "0 < length (most_common_n 5000 [([0x430, 0x431, 0x432], 1)])"
    and w: "[0x430, 0x431, 0x432] = fst (most_common_n 5000 [([0x430, 0x431, 0x432], 1)] ! 0)"
    by (simp_all add: mc)
  from translate_words_rejection_rule [OF i w far] translate_words_rejection_rule [OF i w near]
    far near
  show ?thesis
    by (simp add: most_common_def ustr_def numeral_eq_enat one_enat_def)
qed

subsection \<open>Empty candidate and sentinel score\<close>

lemma dict_get_tr_items_nonempty: "dict_get tr_items k [c] \<noteq> []"
proof (cases "map_of (rev tr_items) k")
  case None
  then show ?thesis by (simp add: dict_get_def)
next
  case (Some v)
  then have "(k, v) \<in> set tr_items"
    by (auto dest: map_of_SomeD)
  then have "v \<noteq> []"
    by (auto simp add: tr_items_def ustr_def)
  with Some show ?thesis by (simp add: dict_get_def)
qed

lemma length_concat_map_ge:
  "(\<And>x. f x \<noteq> []) \<Longrightarrow> length xs \<le> length (concat (map f xs))"
proof (induction xs)
  case Nil
  show ?case by simp
next
  case (Cons x xs)
  have "1 \<le> length (f x)"
    using Cons.prems [of x] by (cases "f x") simp_all
  with Cons show ?case by simp
qed

lemma length_transliteration: "length w \<le> length (transliteration lower w)"
  unfolding transliteration_def
  by (rule length_concat_map_ge) (rule dict_get_tr_items_nonempty)

lemma czech_processing_Nil: "czech_processing [] = []"
  by (simp add: czech_processing_def czech_rules_def ustr_def)

lemma scan_candidates_result:
  "scan_candidates r cs (cand, best) = (cand', best') \<Longrightarrow>
     (cand' = cand \<and> best' = best)
     \<or> (cand' \<in> set cs \<and> best' = enat (levenshtein r (czech_processing cand')))"
proof (induction cs arbitrary: cand best)
  case Nil
  then show ?case by simp
next
  case (Cons c cs)
  show ?case
  proof (cases "enat (nat \<bar>int (length c) - int (length r)\<bar>) > best")
    case True
    with Cons.prems have "scan_candidates r cs (cand, best) = (cand', best')"
      by simp
    from Cons.IH [OF this] show ?thesis by auto
  next
    case skip: False
    let ?dist = "levenshtein r (czech_processing c)"
    show ?thesis
    proof (cases "enat ?dist < best")
      case better: True
      show ?thesis
      proof (cases "?dist = 0")
        case True
        with skip better Cons.prems show ?thesis by (simp add: Let_def)
      next
        case False
        with skip better Cons.prems
        have "scan_candidates r cs (c, enat ?dist) = (cand', best')"
          by (simp add: Let_def)
        from Cons.IH [OF this] show ?thesis by auto
      qed
    next
      case worse: False
      show ?thesis
      proof (cases "?dist = 0")
        case True
        with skip worse Cons.prems show ?thesis by (simp add: Let_def)
      next
        case False
        with skip worse Cons.prems
        have "scan_candidates r cs (cand, best) = (cand', best')"
          by (simp add: Let_def)
        from Cons.IH [OF this] show ?thesis by auto
      qed
    qed
  qed
qed

lemma translate_word_sentinel_iff:
  "translate_word lower sorted_czech r_word = (w, candidate, score) \<Longrightarrow>
     w = r_word \<and> (candidate = [] \<longleftrightarrow> score = \<infinity>)"
proof -
  assume out: "translate_word lower sorted_czech r_word = (w, candidate, score)"
  obtain cand best where
    scan: "scan_candidates (transliteration lower r_word) sorted_czech ([], \<infinity>) = (cand, best)"
    by (cases "scan_candidates (transliteration lower r_word) sorted_czech ([], \<infinity>)")
  show ?thesis
  proof (cases "best \<ge> enat (max (length r_word) (length cand))")
    case True
    with out scan show ?thesis
      by (simp add: translate_word_def Let_def)
  next
    case False
    with out scan have eq: "w = r_word" "candidate = cand" "score = best"
      by (simp_all add: translate_word_def Let_def)
    from False have finite: "best \<noteq> \<infinity>"
      by (cases best) simp_all
    with scan_candidates_result [OF scan]
    have found: "best = enat (levenshtein (transliteration lower r_word) (czech_processing cand))"
      by auto
    have "cand \<noteq> []"
    proof
      assume "cand = []"
      with found have "best = enat (length (transliteration lower r_word))"
        by (cases "transliteration lower r_word") (simp_all add: czech_processing_Nil)
      with \<open>cand = []\<close> False length_transliteration [of r_word lower] show False
        by simp
    qed
    with eq finite show ?thesis by simp
  qed
qed

lemma translate_loop_sentinel_iff:
  "(w, candidate, score) \<in> set (translate_loop lower sorted_czech rs) \<Longrightarrow>
     (candidate = [] \<longleftrightarrow> score = \<infinity>)"
proof (induction rs)
  case Nil
  then show ?case by simp
next
  case (Cons r rs)
  obtain r_word count where r: "r = (r_word, count)" by (cases r)
  from Cons.prems r consider
      "translate_word lower sorted_czech r_word = (w, candidate, score)"
    | "(w, candidate, score) \<in> set (translate_loop lower sorted_czech rs)"
    by auto
  then show ?case
  proof cases
    case 1
    then show ?thesis using translate_word_sentinel_iff by blast
  next
    case 2
    then show ?thesis by (rule Cons.IH)
  qed
qed

lemma translate_word_no_candidates:
  "translate_word lower [] r_word = (r_word, [], \<infinity>)"
  by (simp add: translate_word_def)

lemma translate_loop_no_candidates:
  "(w, candidate, score) \<in> set (translate_loop lower [] rs) \<Longrightarrow> candidate = [] \<and> score = \<infinity>"
  by (induction rs) (auto simp add: translate_word_no_candidates)

text \<open>
  C3: in every triple \<open>(w, candidate, score)\<close> of the output of \<open>translate_words\<close>, the
  candidate is the empty string if and only if the score is the sentinel infinity; and
  with an empty target vocabulary every triple is the sentinel one.
\<close>

theorem translate_words_sentinel_iff:
  "(\<forall>(w, candidate, score) \<in> set (translate_words lower russian czech n).
      candidate = [] \<longleftrightarrow> score = \<infinity>)
   \<and> (\<forall>(w, candidate, score) \<in> set (translate_words lower russian [] n).
      candidate = [] \<and> score = \<infinity>)"
proof -
  have "candidate = [] \<longleftrightarrow> score = \<infinity>"
    if "(w, candidate, score) \<in> set (translate_words lower russian czech n)"
    for w candidate score
    using that translate_loop_sentinel_iff
    unfolding translate_words_def Let_def by blast
  moreover have "candidate = [] \<and> score = \<infinity>"
    if "(w, candidate, score) \<in> set (translate_words lower russian [] n)"
    for w candidate score
    using that translate_loop_no_candidates
    unfolding translate_words_def Let_def most_common_def by simp
  ultimately show ?thesis by blast
qed

theorem translate_words_sentinel_iff_witness:
  "translate_words py_lower [([0x445], 3), ([0x430, 0x431, 0x432], 1)]
       [(ustr ''xyz'', 2), (ustr ''ch'', 2)] 5000
     = [([0x445], ustr ''ch'', 0), ([0x430, 0x431, 0x432], [], \<infinity>)]
   \<and> translate_words py_lower [([0x445], 3)] [] 5000 = [([0x445], [], \<infinity>)]"
proof -
  have run: "translate_words py_lower [([0x445], 3), ([0x430, 0x431, 0x432], 1)]
       [(ustr ''xyz'', 2), (ustr ''ch'', 2)] 5000
     = [([0x445], ustr ''ch'', 0), ([0x430, 0x431, 0x432], [], \<infinity>)]"
    by (simp add: run_defs zero_enat_def)
  have none: "translate_words py_lower [([0x445], 3)] [] 5000 = [([0x445], [], \<infinity>)]"
    by (simp add: run_defs)
  from run none
    translate_words_sentinel_iff [of py_lower "[([0x445], 3), ([0x430, 0x431, 0x432], 1)]"
      "[(ustr ''xyz'', 2), (ustr ''ch'', 2)]" 5000]
  show ?thesis by simp
qed

subsection \<open>Pruning on the raw candidate length\<close>

text \<open>
  C1 (the emitted score is the minimum distance over the whole target vocabulary) does
  not hold of the code. The pruning test compares \<open>len(c_word)\<close>, the raw candidate,
  with \<open>len(r_trans)\<close>, while the distance is taken to \<open>czech_processing(c_word)\<close>, whose
  length differs from that of \<open>c_word\<close> (\<open>ch\<close> becomes \<open>x\<close>, a palatalised letter becomes two
  characters). For the Russian table with the one word U+0445 U+0445 (transliterated
  \<open>"xx"\<close>) and the Czech table \<open>{"x": 2, "chch": 1}\<close>: \<open>"x"\<close> is scanned first and gives
  \<open>best = 1\<close>; \<open>"chch"\<close> is skipped because \<open>abs(4 - 2) > 1\<close>, although its distance
  is 0; the triple emitted carries the score 1.
\<close>

theorem pruning_skips_better_candidate:
  "translate_words py_lower [([0x445, 0x445], 1)] [(ustr ''x'', 2), (ustr ''chch'', 1)] 5000
     = [([0x445, 0x445], ustr ''x'', 1)]
   \<and> ustr ''chch'' \<in> fst ` set [(ustr ''x'', 2 :: int), (ustr ''chch'', 1)]
   \<and> levenshtein (transliteration py_lower [0x445, 0x445]) (czech_processing (ustr ''chch'')) = 0"
  by (simp add: run_defs one_enat_def)

subsection \<open>Determinism\<close>

text \<open>
  The only state that survives a run of \<open>translate_words\<close> is the cache of
  \<open>levenshtein\<close>. The cached functions return what the uncached ones return, from every
  sound cache.
\<close>

lemma cache_sound_Nil: "cache_sound []"
  by (simp add: cache_sound_def)

lemma cache_sound_lookup:
  "cache_sound cache \<Longrightarrow> map_of cache (source, target) = Some v \<Longrightarrow> v = levenshtein source target"
  by (auto simp add: cache_sound_def dest!: map_of_SomeD)

lemma cache_sound_hit:
  "cache_sound cache \<Longrightarrow> v = levenshtein source target \<Longrightarrow>
     cache_sound (lru_hit (source, target) v cache)"
  by (auto simp add: cache_sound_def lru_hit_def)

lemma cache_sound_store:
  "cache_sound cache \<Longrightarrow> v = levenshtein source target \<Longrightarrow>
     cache_sound (lru_store (source, target) v cache)"
  by (auto simp add: cache_sound_def lru_store_def dest: in_set_butlastD)

lemma levenshtein_cached_sound:
  "cache_sound cache \<Longrightarrow>
     fst (levenshtein_cached cache source target) = levenshtein source target
     \<and> cache_sound (snd (levenshtein_cached cache source target))"
proof (induction "length source + length target" arbitrary: cache source target rule: less_induct)
  case less
  note sound = \<open>cache_sound cache\<close>
  show ?case
  proof (cases "map_of cache (source, target)")
    case (Some v)
    then have "levenshtein_cached cache source target = (v, lru_hit (source, target) v cache)"
      by (subst levenshtein_cached.simps) simp
    moreover have "v = levenshtein source target"
      using sound Some by (rule cache_sound_lookup)
    ultimately show ?thesis
      using sound by (simp add: cache_sound_hit)
  next
    case None
    show ?thesis
    proof (cases source)
      case Nil
      with None have "levenshtein_cached cache source target
          = (length target, lru_store (source, target) (length target) cache)"
        by (subst levenshtein_cached.simps) simp
      with Nil sound show ?thesis
        by (simp add: cache_sound_store)
    next
      case source: (Cons s source')
      show ?thesis
      proof (cases target)
        case Nil
        with None source have "levenshtein_cached cache source target
            = (length source, lru_store (source, target) (length source) cache)"
          by (subst levenshtein_cached.simps) simp
        with Nil source sound show ?thesis
          by (simp add: cache_sound_store)
      next
        case target: (Cons t target')
        show ?thesis
        proof (cases "s = t")
          case True
          obtain r c where call: "levenshtein_cached cache source' target' = (r, c)"
            by (cases "levenshtein_cached cache source' target'")
          have "length source' + length target' < length source + length target"
            using source target by simp
          from less.hyps [OF this sound] call
          have r: "r = levenshtein source' target'" and c: "cache_sound c"
            by simp_all
          from None source target True call
          have "levenshtein_cached cache source target = (r, lru_store (source, target) r c)"
            by (subst levenshtein_cached.simps) simp
          with r c source target True show ?thesis
            by (simp add: cache_sound_store)
        next
          case False
          obtain i c1 where call1: "levenshtein_cached cache source target' = (i, c1)"
            by (cases "levenshtein_cached cache source target'")
          have "length source + length target' < length source + length target"
            using target by simp
          from less.hyps [OF this sound] call1
          have i: "i = levenshtein source target'" and c1: "cache_sound c1"
            by simp_all
          obtain d c2 where call2: "levenshtein_cached c1 source' target = (d, c2)"
            by (cases "levenshtein_cached c1 source' target")
          have "length source' + length target < length source + length target"
            using source by simp
          from less.hyps [OF this c1] call2
          have d: "d = levenshtein source' target" and c2: "cache_sound c2"
            by simp_all
          obtain u c3 where call3: "levenshtein_cached c2 source' target' = (u, c3)"
            by (cases "levenshtein_cached c2 source' target'")
          have "length source' + length target' < length source + length target"
            using source target by simp
          from less.hyps [OF this c2] call3
          have u: "u = levenshtein source' target'" and c3: "cache_sound c3"
            by simp_all
          let ?r = "min (i + 1) (min (d + 1) (u + substitution_cost s t))"
          from None source target False call1 call2 call3
          have "levenshtein_cached cache source target = (?r, lru_store (source, target) ?r c3)"
            by (subst levenshtein_cached.simps) simp
          moreover have "?r = levenshtein source target"
            using source target False i d u by (simp add: Let_def)
          ultimately show ?thesis
            using c3 by (simp add: cache_sound_store)
        qed
      qed
    qed
  qed
qed

lemma scan_candidates_cached_sound:
  "cache_sound cache \<Longrightarrow>
     fst (scan_candidates_cached cache r_trans cs (candidate, best))
       = scan_candidates r_trans cs (candidate, best)
     \<and> cache_sound (snd (scan_candidates_cached cache r_trans cs (candidate, best)))"
proof (induction cs arbitrary: cache candidate best)
  case Nil
  then show ?case by simp
next
  case (Cons c cs)
  show ?case
  proof (cases "enat (nat \<bar>int (length c) - int (length r_trans)\<bar>) > best")
    case True
    with Cons.IH [OF Cons.prems] show ?thesis by simp
  next
    case False
    obtain dist cache' where
      call: "levenshtein_cached cache r_trans (czech_processing c) = (dist, cache')"
      by (cases "levenshtein_cached cache r_trans (czech_processing c)")
    with levenshtein_cached_sound [OF Cons.prems, of r_trans "czech_processing c"]
    have dist: "dist = levenshtein r_trans (czech_processing c)" and sound: "cache_sound cache'"
      by simp_all
    show ?thesis
    proof (cases "dist = 0")
      case True
      with False call dist sound show ?thesis by (simp add: Let_def)
    next
      case nonzero: False
      show ?thesis
      proof (cases "enat dist < best")
        case True
        with False nonzero call dist Cons.IH [OF sound, of c "enat dist"] show ?thesis
          by (simp add: Let_def)
      next
        case worse: False
        with False nonzero call dist Cons.IH [OF sound, of candidate best] show ?thesis
          by (simp add: Let_def)
      qed
    qed
  qed
qed

lemma translate_word_cached_sound:
  "cache_sound cache \<Longrightarrow>
     fst (translate_word_cached lower cache sorted_czech r_word)
       = translate_word lower sorted_czech r_word
     \<and> cache_sound (snd (translate_word_cached lower cache sorted_czech r_word))"
proof -
  assume sound: "cache_sound cache"
  let ?r = "transliteration lower r_word"
  obtain cand best cache' where
    call: "scan_candidates_cached cache ?r sorted_czech ([], \<infinity>) = ((cand, best), cache')"
    by (cases "scan_candidates_cached cache ?r sorted_czech ([], \<infinity>)") auto
  with scan_candidates_cached_sound [OF sound, of ?r sorted_czech "[]" \<infinity>]
  have "scan_candidates ?r sorted_czech ([], \<infinity>) = (cand, best)" and "cache_sound cache'"
    by simp_all
  with call show ?thesis
    by (simp add: translate_word_cached_def translate_word_def Let_def)
qed

lemma translate_loop_cached_sound:
  "cache_sound cache \<Longrightarrow>
     fst (translate_loop_cached lower cache sorted_czech rs)
       = translate_loop lower sorted_czech rs
     \<and> cache_sound (snd (translate_loop_cached lower cache sorted_czech rs))"
proof (induction rs arbitrary: cache)
  case Nil
  then show ?case by simp
next
  case (Cons r rs)
  obtain r_word count where r: "r = (r_word, count)" by (cases r)
  obtain triple cache' where
    call: "translate_word_cached lower cache sorted_czech r_word = (triple, cache')"
    by (cases "translate_word_cached lower cache sorted_czech r_word")
  with translate_word_cached_sound [OF Cons.prems, of lower sorted_czech r_word]
  have triple: "triple = translate_word lower sorted_czech r_word" and sound: "cache_sound cache'"
    by simp_all
  obtain triples cache'' where
    rest: "translate_loop_cached lower cache' sorted_czech rs = (triples, cache'')"
    by (cases "translate_loop_cached lower cache' sorted_czech rs")
  with Cons.IH [OF sound, of ] have "triples = translate_loop lower sorted_czech rs"
    and "cache_sound cache''"
    by simp_all
  with r call triple rest show ?case
    by simp
qed

lemma translate_words_cached_sound:
  "cache_sound cache \<Longrightarrow>
     fst (translate_words_cached lower cache russian czech n)
       = translate_words lower russian czech n
     \<and> cache_sound (snd (translate_words_cached lower cache russian czech n))"
  by (simp add: translate_words_cached_def translate_words_def translate_loop_cached_sound)

text \<open>
  C9: \<open>translate_words\<close> is deterministic. Two runs on the same frequency tables (item
  lists, so with the same order among equal counts) and the same \<open>n\<close> give the same
  sequence of triples, whatever sound caches the two runs start from: in particular a
  first run in a fresh process and a second run on the cache left by the first.
\<close>

theorem translate_words_deterministic:
  "cache_sound cache \<Longrightarrow> cache_sound cache' \<Longrightarrow>
     fst (translate_words_cached lower cache russian czech n)
       = fst (translate_words_cached lower cache' russian czech n)"
proof -
  assume first: "cache_sound cache" and second: "cache_sound cache'"
  have "fst (translate_words_cached lower cache russian czech n)
          = translate_words lower russian czech n"
    using translate_words_cached_sound [OF first] by simp
  also have "\<dots> = fst (translate_words_cached lower cache' russian czech n)"
    using translate_words_cached_sound [OF second] by simp
  finally show ?thesis .
qed

theorem translate_words_deterministic_witness:
  "translate_words_cached py_lower [] [([0x445], 3), ([0x430], 1)] [(ustr ''ch'', 2)] 5000
     = ([([0x445], ustr ''ch'', 0), ([0x430], ustr ''ch'', 1)],
        [((ustr ''a'', ustr ''x''), 1), (([], []), 0), (([], ustr ''x''), 1),
         ((ustr ''a'', []), 1), ((ustr ''x'', ustr ''x''), 0)])
   \<and> fst (translate_words_cached py_lower
        [((ustr ''a'', ustr ''x''), 1), (([], []), 0), (([], ustr ''x''), 1),
         ((ustr ''a'', []), 1), ((ustr ''x'', ustr ''x''), 0)]
        [([0x445], 3), ([0x430], 1)] [(ustr ''ch'', 2)] 5000)
     = [([0x445], ustr ''ch'', 0), ([0x430], ustr ''ch'', 1)]"
proof -
  let ?cache = "[((ustr ''a'', ustr ''x''), 1), (([], []), 0), (([], ustr ''x''), 1),
         ((ustr ''a'', []), 1), ((ustr ''x'', ustr ''x''), 0)]"
  have first: "translate_words_cached py_lower [] [([0x445], 3), ([0x430], 1)]
       [(ustr ''ch'', 2)] 5000
     = ([([0x445], ustr ''ch'', 0), ([0x430], ustr ''ch'', 1)], ?cache)"
    by (simp add: translate_words_cached_def translate_word_cached_def most_common_def
      most_common_n_def transliteration_def dict_get_def tr_items_def py_lower_def ustr_def
      czech_processing_def czech_rules_def substitution_cost_def
      levenshtein_cached.simps lru_store_def lru_hit_def maxsize_def zero_enat_def one_enat_def)
  have fresh: "cache_sound []"
    by (rule cache_sound_Nil)
  have later: "cache_sound ?cache"
    by (simp add: cache_sound_def ustr_def substitution_cost_def)
  from translate_words_deterministic [OF later fresh, of py_lower
      "[([0x445], 3), ([0x430], 1)]" "[(ustr ''ch'', 2)]" 5000] first
  show ?thesis by simp
qed

end
